theory Spec2Isabelle
  imports Main "HOL-Library.Sublist"
begin

section \<open>Data model\<close>

text \<open>
  A Go \<^verbatim>\<open>[]byte\<close> and a Go \<^verbatim>\<open>string\<close> are both sequences of 8-bit values; they are
  modelled as lists of \<^typ>\<open>char\<close>, so that the byte literals of the source
  (\<^verbatim>\<open>'A'\<close>, \<^verbatim>\<open>"200"\<close>) are the literals of the model.
\<close>

type_synonym byte = char

text \<open>
  Error values of the Go type \<^verbatim>\<open>error\<close>: \<^verbatim>\<open>io.EOF\<close>, the errors built with
  \<^verbatim>\<open>errors.New\<close>, and errors produced by the operating system or a library.
\<close>

datatype goerror = io_EOF | errors_New string | external_error string

text \<open>
  Ways in which the process stops instead of returning: the two run-time panics of
  indexing and slicing, \<^verbatim>\<open>os.Exit\<close>, and \<^verbatim>\<open>log.Fatal\<close> (which prints the error and
  exits with status 1).
\<close>

datatype abort = IndexOutOfRange | SliceBoundsOutOfRange | OsExit nat | LogFatal goerror

text \<open>One entry of a tar stream: the header fields the source sets, and the bytes written
  after the header. The modification time (\<^verbatim>\<open>time.Now()\<close>) is left out.\<close>

record tar_entry =
  Name :: string
  Size :: int
  Mode :: nat
  body :: "byte list"

text \<open>
  A file under \<^verbatim>\<open>output/\<close>: \<open>Created\<close> is the zero-byte file that \<^verbatim>\<open>os.Create\<close> leaves
  when none of the writers on top of it was closed; \<open>Archive es\<close> is the file after the
  tar writer, the zstd writer and the file were closed without error, holding the
  entries \<open>es\<close>; \<open>Incomplete\<close> is the file that is left when one of these three
  \<^verbatim>\<open>Close\<close> calls failed: zero-byte or truncated, and not known to be a complete archive.
\<close>

datatype out_file = Created | Archive "tar_entry list" | Incomplete

record world =
  files :: "string \<rightharpoonup> out_file"
  bar :: nat

text \<open>A WARC record: its header fields and its content, which \<^verbatim>\<open>io.ReadAll\<close> either
  reads in full or fails on.\<close>

record warc_record =
  Header :: "string \<rightharpoonup> string"
  Content :: "goerror + byte list"

text \<open>
  What the program takes from outside itself: the vendor decoder \<^verbatim>\<open>ash0.Decompress\<close>
  (\<open>None\<close> is the \<^verbatim>\<open>nil\<close> slice), the outcome of each operation on the file system and on
  the writers, among them the \<^verbatim>\<open>Close\<close> of the tar writer, of the zstd writer and of the
  file, and the path that \<^verbatim>\<open>url.Parse\<close> finds in a target URI.
\<close>

record env =
  Decompress :: "byte list \<Rightarrow> byte list option"
  Create_err :: "string \<Rightarrow> goerror option"
  NewWriter_err :: "string \<Rightarrow> goerror option"
  WriteHeader_err :: "string \<Rightarrow> string \<Rightarrow> goerror option"
  Write_err :: "string \<Rightarrow> string \<Rightarrow> goerror option"
  tar_Close_err :: "string \<Rightarrow> goerror option"
  zstd_Close_err :: "string \<Rightarrow> goerror option"
  file_Close_err :: "string \<Rightarrow> goerror option"
  url_Parse :: "string \<Rightarrow> goerror + string"

section \<open>The segment splitter\<close>

text \<open>\<^verbatim>\<open>data[i]\<close>: the run-time check of Go on every index.\<close>

definition index :: "byte list \<Rightarrow> nat \<Rightarrow> abort + byte" where
  "index data i = (if i < length data then Inr (data ! i) else Inl IndexOutOfRange)"

text \<open>\<^verbatim>\<open>data[lo:hi]\<close>; here \<open>hi\<close> never exceeds the length, so the capacity of the
  slice plays no part.\<close>

definition slice :: "byte list \<Rightarrow> int \<Rightarrow> int \<Rightarrow> abort + byte list" where
  "slice data lo hi =
     (if 0 \<le> lo \<and> lo \<le> hi \<and> hi \<le> int (length data)
      then Inr (take (nat (hi - lo)) (drop (nat lo) data))
      else Inl SliceBoundsOutOfRange)"

text \<open>
  The condition of the loop body,
  \<^verbatim>\<open>data[i] == 'A' && data[i+1] == 'S' && data[i+2] == 'H' && data[i+3] == '0'\<close>:
  \<^verbatim>\<open>&&\<close> evaluates its right operand only when the left one holds.
\<close>

definition is_header :: "byte list \<Rightarrow> nat \<Rightarrow> abort + bool" where
  "is_header data i =
     (case index data i of Inl e \<Rightarrow> Inl e | Inr a \<Rightarrow>
        if a \<noteq> CHR ''A'' then Inr False else
     (case index data (i + 1) of Inl e \<Rightarrow> Inl e | Inr s \<Rightarrow>
        if s \<noteq> CHR ''S'' then Inr False else
     (case index data (i + 2) of Inl e \<Rightarrow> Inl e | Inr h \<Rightarrow>
        if h \<noteq> CHR ''H'' then Inr False else
     (case index data (i + 3) of Inl e \<Rightarrow> Inl e | Inr z \<Rightarrow>
        Inr (z = CHR ''0'')))))"

text \<open>The \<^verbatim>\<open>for\<close> loop of \<^verbatim>\<open>splitAsh0Bundle\<close>, from index \<open>i\<close> on, with the two
  variables it updates.\<close>

function scan :: "byte list \<Rightarrow> nat \<Rightarrow> byte list list \<Rightarrow> int \<Rightarrow> abort + (byte list list \<times> int)" where
  "scan data i splitData start =
     (if i < length data then
        (case is_header data i of
           Inl e \<Rightarrow> Inl e
         | Inr False \<Rightarrow> scan data (i + 1) splitData start
         | Inr True \<Rightarrow>
             (if start \<noteq> - 1 then
                (case slice data start (int i) of
                   Inl e \<Rightarrow> Inl e
                 | Inr seg \<Rightarrow> scan data (i + 1) (splitData @ [seg]) (int i))
              else scan data (i + 1) splitData (int i)))
      else Inr (splitData, start))"
  by pat_completeness auto
termination
  by (relation "measure (\<lambda>(data, i, splitData, start). length data - i)") auto

text \<open>\<^verbatim>\<open>splitAsh0Bundle\<close> of \<^verbatim>\<open>src/main.go\<close>: when no header was found it prints and
  calls \<^verbatim>\<open>os.Exit(1)\<close>.\<close>

definition splitAsh0Bundle :: "byte list \<Rightarrow> abort + byte list list" where
  "splitAsh0Bundle data =
     (case scan data 0 [] (- 1) of
        Inl e \<Rightarrow> Inl e
      | Inr (splitData, start) \<Rightarrow>
          if start = - 1 then Inl (OsExit 1)
          else (case slice data start (int (length data)) of
                  Inl e \<Rightarrow> Inl e
                | Inr seg \<Rightarrow> Inr (splitData @ [seg])))"

text \<open>\<^verbatim>\<open>splitAsh0Bundle\<close> of the second source file, which has the same loop and no
  check of \<^verbatim>\<open>start\<close> before \<^verbatim>\<open>data[start:]\<close>.\<close>

definition splitAsh0Bundle_part000 :: "byte list \<Rightarrow> abort + byte list list" where
  "splitAsh0Bundle_part000 data =
     (case scan data 0 [] (- 1) of
        Inl e \<Rightarrow> Inl e
      | Inr (splitData, start) \<Rightarrow>
          (case slice data start (int (length data)) of
             Inl e \<Rightarrow> Inl e
           | Inr seg \<Rightarrow> Inr (splitData @ [seg])))"

section \<open>Repackaging one record\<close>

text \<open>
  The first \<^verbatim>\<open>ReadLine\<close> of a \<^verbatim>\<open>bufio.Reader\<close> (buffer of 4096 bytes) over the whole
  payload. The line ends before the first line feed of the buffer, without a carriage
  return before it; a buffer filled without a line feed is returned as it is, without
  a last carriage return; an empty payload is \<^verbatim>\<open>io.EOF\<close>; a shorter payload without line
  feed is returned whole.
\<close>

definition dropCR :: "byte list \<Rightarrow> byte list" where
  "dropCR line = (if line \<noteq> [] \<and> last line = CHR 0x0D then butlast line else line)"

definition ReadLine :: "byte list \<Rightarrow> goerror + byte list" where
  "ReadLine data =
     (let buf = take 4096 data; line = takeWhile (\<lambda>b. b \<noteq> CHR 0x0A) buf in
      if length line < length buf then Inr (dropCR line)
      else if length buf = 4096 then Inr (dropCR buf)
      else if buf = [] then Inl io_EOF
      else Inr buf)"

text \<open>\<^verbatim>\<open>strings.Contains\<close>.\<close>

fun strings_Contains :: "string \<Rightarrow> string \<Rightarrow> bool" where
  "strings_Contains [] substr = (substr = [])"
| "strings_Contains (c # s) substr =
     (take (length substr) (c # s) = substr \<or> strings_Contains s substr)"

definition fileNames :: "string list" where
  "fileNames = [''thumbnail0.tnl'', ''course_data.cdt'', ''course_data_sub.cdt'', ''thumbnail1.tnl'']"

text \<open>
  The loop over \<^verbatim>\<open>fileNames\<close>, from index \<open>i\<close> on. \<open>tw\<close> is what the tar writer has
  received: \<^verbatim>\<open>WriteHeader\<close> starts an entry and \<^verbatim>\<open>Write\<close> gives it its bytes. The
  writer's own errors cannot arise, since every header announces the length of the
  bytes written after it; the errors of the file underneath are those of \<open>env\<close>. The
  result is what the writer has received, whether the writer has met a write error
  (which it keeps, and which makes its \<^verbatim>\<open>Close\<close> fail), and the way the loop ends.
\<close>

fun write_entries ::
  "env \<Rightarrow> string \<Rightarrow> byte list list \<Rightarrow> nat \<Rightarrow> string list \<Rightarrow> tar_entry list
     \<Rightarrow> tar_entry list \<times> bool \<times> (abort + goerror option)" where
  "write_entries env path splitData i [] tw = (tw, False, Inr None)"
| "write_entries env path splitData i (fileName # rest) tw =
     (if length splitData \<le> i then (tw, False, Inl IndexOutOfRange) else
      (case Decompress env (splitData ! i) of
         None \<Rightarrow> (tw, False, Inr (Some (errors_New ''failed to decompress'')))
       | Some decompressed \<Rightarrow>
           (case WriteHeader_err env path fileName of
              Some err \<Rightarrow> (tw, True, Inr (Some err))
            | None \<Rightarrow>
                (case Write_err env path fileName of
                   Some err \<Rightarrow>
                     (tw @ [\<lparr>Name = fileName, Size = int (length decompressed),
                             Mode = 420, body = []\<rparr>], True, Inr (Some err))
                 | None \<Rightarrow>
                     write_entries env path splitData (i + 1) rest
                       (tw @ [\<lparr>Name = fileName, Size = int (length decompressed),
                               Mode = 420, body = decompressed\<rparr>])))))"

text \<open>
  The three deferred calls \<^verbatim>\<open>tarWriter.Close()\<close>, \<^verbatim>\<open>zstWriter.Close()\<close> and
  \<^verbatim>\<open>file.Close()\<close>, in the order in which they run. The source discards their results,
  and the zstd writer holds the data until it is closed: when the tar writer has met
  no write error and the three calls succeed, the file is an archive of the entries
  \<open>tw\<close> written so far; otherwise the file is left incomplete, with nothing reported.
\<close>

definition Close_ok :: "env \<Rightarrow> string \<Rightarrow> bool" where
  "Close_ok env path =
     (tar_Close_err env path = None \<and> zstd_Close_err env path = None \<and>
      file_Close_err env path = None)"

definition deferred_Close :: "env \<Rightarrow> string \<Rightarrow> bool \<Rightarrow> tar_entry list \<Rightarrow> out_file" where
  "deferred_Close env path failed tw =
     (if \<not> failed \<and> Close_ok env path then Archive tw else Incomplete)"

text \<open>
  \<^verbatim>\<open>convertLevelData\<close>. The deferred \<^verbatim>\<open>Close\<close> calls run when the function returns and
  when it panics; they do not run when \<^verbatim>\<open>splitAsh0Bundle\<close> exits the process, and when
  \<^verbatim>\<open>zstd.NewWriter\<close> fails only the file is closed, with nothing written to it. The
  result is the new state of the world with either the way the process stopped or the
  returned \<^verbatim>\<open>error\<close> (\<open>None\<close> is \<^verbatim>\<open>nil\<close>).
\<close>

definition output_path :: "string \<Rightarrow> string" where
  "output_path ident = ''output/'' @ ident @ ''.tar.zst''"

definition put_file :: "world \<Rightarrow> string \<Rightarrow> out_file \<Rightarrow> world" where
  "put_file w path f = w\<lparr>files := (files w)(path \<mapsto> f)\<rparr>"

definition convertLevelData ::
  "env \<Rightarrow> string \<Rightarrow> byte list \<Rightarrow> world \<Rightarrow> world \<times> (abort + goerror option)" where
  "convertLevelData env ident data w =
     (case ReadLine data of
        Inl err \<Rightarrow> (w, Inr (Some err))
      | Inr status \<Rightarrow>
          if \<not> strings_Contains status ''200'' then (w, Inr None)
          else
            let path = output_path ident in
            (case Create_err env path of
               Some err \<Rightarrow> (w, Inr (Some err))
             | None \<Rightarrow>
                 (case NewWriter_err env path of
                    Some err \<Rightarrow> (put_file w path Created, Inr (Some err))
                  | None \<Rightarrow>
                      (case splitAsh0Bundle data of
                         Inl (OsExit c) \<Rightarrow> (put_file w path Created, Inl (OsExit c))
                       | Inl e \<Rightarrow> (put_file w path (deferred_Close env path False []), Inl e)
                       | Inr splitData \<Rightarrow>
                           if length splitData \<noteq> length fileNames
                           then (put_file w path (deferred_Close env path False []),
                                 Inr (Some (errors_New ''failed to split data'')))
                           else
                             (case write_entries env path splitData 0 fileNames [] of
                                (tw, failed, r) \<Rightarrow>
                                  (put_file w path (deferred_Close env path failed tw), r))))))"

section \<open>The loop over the records\<close>

text \<open>\<^verbatim>\<open>record.Header.Get\<close>: the empty string for a missing key.\<close>

definition Header_Get :: "warc_record \<Rightarrow> string \<Rightarrow> string" where
  "Header_Get r k = (case Header r k of None \<Rightarrow> [] | Some v \<Rightarrow> v)"

text \<open>\<^verbatim>\<open>strings.Split\<close> with a separator of one byte: never an empty list.\<close>

fun strings_Split :: "string \<Rightarrow> char \<Rightarrow> string list" where
  "strings_Split [] sep = [[]]"
| "strings_Split (c # s) sep =
     (if c = sep then [] # strings_Split s sep
      else (case strings_Split s sep of
              p # ps \<Rightarrow> (c # p) # ps
            | [] \<Rightarrow> [[c]]))"

text \<open>
  The record loop of \<^verbatim>\<open>extract_file\<close>, over the records that \<^verbatim>\<open>ReadRecord\<close> yields
  before its first error. \<^verbatim>\<open>log.Fatal\<close> ends the process, so the records after it are
  never looked at. \<open>bar\<close> counts the calls of \<^verbatim>\<open>bar.Add(1)\<close>. Left out are the lines
  printed with \<^verbatim>\<open>println\<close>, the count of the lines of the index file, which only sizes
  the progress bar, and the choice of the archive files in \<^verbatim>\<open>main\<close> and
  \<^verbatim>\<open>extract_dir\<close>.
\<close>

fun extract_file :: "env \<Rightarrow> warc_record list \<Rightarrow> world \<Rightarrow> world \<times> (abort + unit)" where
  "extract_file env [] w = (w, Inr ())"
| "extract_file env (r # rs) w =
     (if Header_Get r ''WARC-Type'' \<noteq> ''response'' then extract_file env rs w
      else
        (case url_Parse env (Header_Get r ''WARC-Target-URI'') of
           Inl err \<Rightarrow> (w, Inl (LogFatal err))
         | Inr path \<Rightarrow>
             let pathParts = strings_Split path CHR ''/'';
                 fileName = last pathParts in
             (case Content r of
                Inl err \<Rightarrow> (w, Inl (LogFatal err))
              | Inr data \<Rightarrow>
                  (case convertLevelData env fileName data w of
                     (w', Inl a) \<Rightarrow> (w', Inl a)
                   | (w', Inr (Some err)) \<Rightarrow> (w', Inl (LogFatal err))
                   | (w', Inr None) \<Rightarrow> extract_file env rs (w'\<lparr>bar := bar w' + 1\<rparr>)))))"

section \<open>Notions used to state the properties\<close>

text \<open>The bundle marker, and a buffer that holds it somewhere.\<close>

definition marker :: "byte list" where
  "marker = ''ASH0''"

definition has_marker :: "byte list \<Rightarrow> bool" where
  "has_marker data = strings_Contains data marker"

text \<open>A buffer that ends inside a marker: its last one, two or three bytes are the
  first bytes of the marker.\<close>

definition dangling :: "byte list \<Rightarrow> bool" where
  "dangling data = (suffix ''A'' data \<or> suffix ''AS'' data \<or> suffix ''ASH'' data)"

text \<open>The first line of a payload: the bytes before its first line feed.\<close>

definition first_line :: "byte list \<Rightarrow> byte list" where
  "first_line data = takeWhile (\<lambda>b. b \<noteq> CHR 0x0A) data"

text \<open>The index of the first occurrence of the marker, if there is one.\<close>

fun find_marker :: "byte list \<Rightarrow> nat option" where
  "find_marker [] = None"
| "find_marker (x # xs) =
     (if take 4 (x # xs) = marker then Some 0 else map_option Suc (find_marker xs))"

text \<open>
  The buffer cut at every occurrence of the marker: the bytes before the first
  occurrence, and then the segments, each running from one occurrence up to the next
  occurrence or to the end of the buffer.
\<close>

fun pieces :: "byte list \<Rightarrow> byte list \<times> byte list list" where
  "pieces [] = ([], [])"
| "pieces (x # xs) =
     (case pieces xs of (pre, ss) \<Rightarrow>
        if take 4 (x # xs) = marker then ([], (x # pre) # ss) else (x # pre, ss))"

text \<open>The loop condition of the splitter, read on the bytes from the current index on.\<close>

fun hdr :: "byte list \<Rightarrow> abort + bool" where
  "hdr (a # s # h # z # r) =
     (if a \<noteq> CHR ''A'' then Inr False else if s \<noteq> CHR ''S'' then Inr False
      else if h \<noteq> CHR ''H'' then Inr False else Inr (z = CHR ''0''))"
| "hdr [a, s, h] =
     (if a \<noteq> CHR ''A'' then Inr False else if s \<noteq> CHR ''S'' then Inr False
      else if h \<noteq> CHR ''H'' then Inr False else Inl IndexOutOfRange)"
| "hdr [a, s] =
     (if a \<noteq> CHR ''A'' then Inr False else if s \<noteq> CHR ''S'' then Inr False
      else Inl IndexOutOfRange)"
| "hdr [a] = (if a \<noteq> CHR ''A'' then Inr False else Inl IndexOutOfRange)"
| "hdr [] = Inl IndexOutOfRange"

text \<open>An archive entry with a name, the size of its bytes and these bytes as content.\<close>

definition archive_entry :: "string \<Rightarrow> byte list \<Rightarrow> tar_entry" where
  "archive_entry n d = \<lparr>Name = n, Size = int (length d), Mode = 420, body = d\<rparr>"

section \<open>Sample inputs\<close>

text \<open>
  An environment without input or output errors, whose decoder fails on a segment that
  is no longer than the marker and otherwise returns the bytes after the marker; the
  same environment with a decoder that returns the bytes after the marker in every case,
  so an empty, non-nil slice for a segment that is the marker alone; the same
  environment on a full disk, where closing the zstd writer fails; an empty world; a
  status line; and records of type response and request.
\<close>

definition sample_env :: env where
  "sample_env =
     \<lparr>Decompress = (\<lambda>s. if length s \<le> 4 then None else Some (drop 4 s)),
      Create_err = (\<lambda>p. None), NewWriter_err = (\<lambda>p. None),
      WriteHeader_err = (\<lambda>p n. None), Write_err = (\<lambda>p n. None),
      tar_Close_err = (\<lambda>p. None), zstd_Close_err = (\<lambda>p. None),
      file_Close_err = (\<lambda>p. None),
      url_Parse = (\<lambda>u. Inr u)\<rparr>"

definition lenient_env :: env where
  "lenient_env = sample_env\<lparr>Decompress := (\<lambda>s. Some (drop 4 s))\<rparr>"

definition full_disk_env :: env where
  "full_disk_env =
     sample_env\<lparr>zstd_Close_err := (\<lambda>p. Some (external_error ''no space left on device''))\<rparr>"

definition sample_world :: world where
  "sample_world = \<lparr>files = Map.empty, bar = 0\<rparr>"

definition ok_status :: "byte list" where
  "ok_status = ''HTTP/1.1 200 OK'' @ [CHR 0x0D, CHR 0x0A]"

definition response_record :: "string \<Rightarrow> byte list \<Rightarrow> warc_record" where
  "response_record uri data =
     \<lparr>Header = [''WARC-Type'' \<mapsto> ''response'', ''WARC-Target-URI'' \<mapsto> uri],
      Content = Inr data\<rparr>"

definition request_record :: "string \<Rightarrow> byte list \<Rightarrow> warc_record" where
  "request_record uri data =
     \<lparr>Header = [''WARC-Type'' \<mapsto> ''request'', ''WARC-Target-URI'' \<mapsto> uri],
      Content = Inr data\<rparr>"

section \<open>The loop condition and the end of the buffer\<close>

declare scan.simps [simp del]

lemma length_marker: "length marker = 4"
  by (simp add: marker_def)

lemma index_via_drop:
  assumes "drop i data = xs"
  shows "index data (i + k) = (if k < length xs then Inr (xs ! k) else Inl IndexOutOfRange)"
  using assms by (auto simp: index_def)

lemma is_header_hdr: "is_header data i = hdr (drop i data)"
proof -
  obtain xs where xs: "drop i data = xs" by simp
  have a: "index data i = (if 0 < length xs then Inr (xs ! 0) else Inl IndexOutOfRange)"
    using index_via_drop[OF xs, of 0] by simp
  note b = index_via_drop[OF xs, of 1] index_via_drop[OF xs, of 2] index_via_drop[OF xs, of 3]
  show ?thesis
    unfolding is_header_def a b xs
    by (cases xs rule: hdr.cases) simp_all
qed

lemma hdr_True: "hdr xs = Inr True \<longleftrightarrow> take 4 xs = marker"
  by (cases xs rule: hdr.cases) (auto simp: marker_def)

lemma hdr_Inl: "hdr (x # xs) = Inl e \<longleftrightarrow> e = IndexOutOfRange \<and> (x # xs = ''A'' \<or> x # xs = ''AS'' \<or> x # xs = ''ASH'')"
  by (cases "x # xs" rule: hdr.cases) auto

lemma dangling_Nil: "\<not> dangling []"
  by (simp add: dangling_def)

lemma dangling_Cons: "dangling (x # xs) \<longleftrightarrow> (x # xs = ''A'' \<or> x # xs = ''AS'' \<or> x # xs = ''ASH'') \<or> dangling xs"
  by (auto simp: dangling_def suffix_Cons)

lemma suffix_short:
  assumes "length s \<le> length Q"
  shows "suffix s (P @ Q) \<longleftrightarrow> suffix s Q"
proof
  assume "suffix s (P @ Q)"
  then obtain u where u: "P @ Q = u @ s" by (auto simp: suffix_def)
  then have "s = drop (length (P @ Q) - length s) (P @ Q)" by simp
  also have "\<dots> = drop (length Q - length s) Q" using assms by simp
  finally show "suffix s Q" by (metis suffix_drop)
qed (simp add: suffix_appendI)

lemma dangling_marker: "dangling (marker @ W) \<longleftrightarrow> dangling W"
  by (simp add: dangling_def marker_def suffix_Cons)

lemma dangling_app_marker: "dangling (P @ marker @ W) \<longleftrightarrow> dangling W"
proof -
  have "dangling (P @ marker @ W) \<longleftrightarrow> dangling (marker @ W)"
    by (simp add: dangling_def suffix_short length_marker)
  then show ?thesis by (simp add: dangling_marker)
qed

section \<open>What the scan returns\<close>

text \<open>The loop stops with a panic exactly on a buffer that ends inside a marker; otherwise it
  returns the segments of the buffer.\<close>

lemma scan_step:
  assumes "i < length data"
  shows "scan data i acc start =
     (case hdr (drop i data) of
           Inl e \<Rightarrow> Inl e
         | Inr False \<Rightarrow> scan data (Suc i) acc start
         | Inr True \<Rightarrow>
             (if start \<noteq> - 1 then
                (case slice data start (int i) of
                   Inl e \<Rightarrow> Inl e
                 | Inr seg \<Rightarrow> scan data (Suc i) (acc @ [seg]) (int i))
              else scan data (Suc i) acc (int i)))"
  using assms unfolding Suc_eq_plus1 by (subst scan.simps) (simp add: is_header_hdr)

lemma scan_done: "length data \<le> i \<Longrightarrow> scan data i acc start = Inr (acc, start)"
  by (subst scan.simps) simp

lemma scan_abort:
  assumes "i \<le> length data" "start = - 1 \<or> (0 \<le> start \<and> start \<le> int i)"
  shows "scan data i acc start = Inl e \<longleftrightarrow> e = IndexOutOfRange \<and> dangling (drop i data)"
  using assms
proof (induction "length data - i" arbitrary: i acc start)
  case 0
  then show ?case by (simp add: scan_done dangling_Nil)
next
  case (Suc n)
  then have lt: "i < length data" by simp
  define x where "x = data ! i"
  define xs where "xs = drop (Suc i) data"
  have d: "drop i data = x # xs" and d': "drop (Suc i) data = xs"
    using Cons_nth_drop_Suc[OF lt] by (simp_all add: x_def xs_def)
  have n: "n = length data - Suc i" using Suc.hyps by simp
  have sl: "start \<noteq> - 1 \<Longrightarrow> slice data start (int i) = Inr (take (nat (int i - start)) (drop (nat start) data))"
    using Suc.prems lt by (auto simp: slice_def)
  have IH: "(scan data (Suc i) acc' start' = Inl e) = (e = IndexOutOfRange \<and> dangling xs)"
    if "start' = - 1 \<or> (0 \<le> start' \<and> start' \<le> int (Suc i))" for acc' start'
    using Suc.hyps(1)[OF n _ that] lt d' by simp
  have IH1: "(scan data (Suc i) acc start = Inl e) = (e = IndexOutOfRange \<and> dangling xs)"
    using Suc.prems(2) by (intro IH) auto
  have IH2: "(scan data (Suc i) acc' (int i) = Inl e) = (e = IndexOutOfRange \<and> dangling xs)" for acc'
    by (intro IH) auto
  show ?case
  proof (cases "hdr (x # xs)")
    case (Inl e')
    then show ?thesis
      using hdr_Inl[of x xs e'] by (auto simp: scan_step[OF lt] d dangling_Cons)
  next
    case (Inr b)
    then have nd: "\<not> (x # xs = ''A'' \<or> x # xs = ''AS'' \<or> x # xs = ''ASH'')"
      using hdr_Inl[of x xs IndexOutOfRange] by auto
    then have dg: "dangling (x # xs) = dangling xs"
      by (simp only: dangling_Cons) simp
    show ?thesis
    proof (cases b)
      case True
      show ?thesis
        using Inr True sl
        by (simp add: scan_step[OF lt] d dg IH2)
    next
      case False
      show ?thesis
        using Inr False
        by (simp add: scan_step[OF lt] d dg IH1)
    qed
  qed
qed

lemma scan_result:
  assumes "i \<le> length data" "0 \<le> start" "start \<le> int i"
    and "scan data i acc start = Inr (acc', start')"
  shows "0 \<le> start' \<and> start' \<le> int (length data) \<and>
         acc' @ [drop (nat start') data] =
           acc @ (case pieces (drop i data) of
                    (pre, ss) \<Rightarrow> (take (i - nat start) (drop (nat start) data) @ pre) # ss)"
  using assms
proof (induction "length data - i" arbitrary: i acc start)
  case 0
  then show ?case by (simp add: scan_done)
next
  case (Suc n)
  then have lt: "i < length data" by simp
  define x where "x = data ! i"
  define xs where "xs = drop (Suc i) data"
  have d: "drop i data = x # xs" and d': "drop (Suc i) data = xs"
    using Cons_nth_drop_Suc[OF lt] by (simp_all add: x_def xs_def)
  note x = x_def
  have n: "n = length data - Suc i" using Suc.hyps by simp
  have sl: "slice data start (int i) = Inr (take (i - nat start) (drop (nat start) data))"
    using Suc.prems lt by (auto simp: slice_def nat_diff_distrib)
  have tk: "take (Suc i - nat start) (drop (nat start) data) =
            take (i - nat start) (drop (nat start) data) @ [x]"
    using Suc.prems lt x by (simp add: Suc_diff_le take_Suc_conv_app_nth)
  obtain pre ss where p: "pieces xs = (pre, ss)" by (cases "pieces xs")
  show ?case
  proof (cases "hdr (x # xs)")
    case (Inl e')
    then show ?thesis using Suc.prems(4) by (simp add: scan_step[OF lt] d)
  next
    case (Inr b)
    show ?thesis
    proof (cases b)
      case True
      have m: "take 4 (x # xs) = marker" using Inr True hdr_True[of "x # xs"] by simp
      have st: "start \<noteq> - 1" using Suc.prems by auto
      have sc: "scan data (Suc i) (acc @ [take (i - nat start) (drop (nat start) data)]) (int i) = Inr (acc', start')"
        using Suc.prems(4) Inr True st by (simp add: scan_step[OF lt] d sl)
      have "0 \<le> start' \<and> start' \<le> int (length data) \<and>
         acc' @ [drop (nat start') data] =
           (acc @ [take (i - nat start) (drop (nat start) data)]) @ (case pieces (drop (Suc i) data) of
                    (pre, ss) \<Rightarrow> (take (Suc i - nat (int i)) (drop (nat (int i)) data) @ pre) # ss)"
        using lt by (intro Suc.hyps(1)[OF n _ _ _ sc]) auto
      then show ?thesis using m by (simp add: d d' p)
    next
      case False
      have m: "take 4 (x # xs) \<noteq> marker" using Inr False hdr_True[of "x # xs"] by simp
      have sc: "scan data (Suc i) acc start = Inr (acc', start')"
        using Suc.prems(4) Inr False by (simp add: scan_step[OF lt] d)
      have "0 \<le> start' \<and> start' \<le> int (length data) \<and>
         acc' @ [drop (nat start') data] =
           acc @ (case pieces (drop (Suc i) data) of
                    (pre, ss) \<Rightarrow> (take (Suc i - nat start) (drop (nat start) data) @ pre) # ss)"
        using lt Suc.prems by (intro Suc.hyps(1)[OF n _ _ _ sc]) auto
      then show ?thesis using m by (simp add: d d' p tk)
    qed
  qed
qed

lemma scan_first:
  assumes "i \<le> length data" and "scan data i [] (- 1) = Inr (acc', start')"
  shows "if snd (pieces (drop i data)) = [] then acc' = [] \<and> start' = - 1
         else 0 \<le> start' \<and> start' \<le> int (length data) \<and>
              acc' @ [drop (nat start') data] = snd (pieces (drop i data))"
  using assms
proof (induction "length data - i" arbitrary: i)
  case 0
  then show ?case by (simp add: scan_done)
next
  case (Suc n)
  then have lt: "i < length data" by simp
  define x where "x = data ! i"
  define xs where "xs = drop (Suc i) data"
  have d: "drop i data = x # xs" and d': "drop (Suc i) data = xs"
    using Cons_nth_drop_Suc[OF lt] by (simp_all add: x_def xs_def)
  have n: "n = length data - Suc i" using Suc.hyps by simp
  obtain pre ss where p: "pieces xs = (pre, ss)" by (cases "pieces xs")
  show ?case
  proof (cases "hdr (x # xs)")
    case (Inl e')
    then show ?thesis using Suc.prems(2) by (simp add: scan_step[OF lt] d)
  next
    case (Inr b)
    show ?thesis
    proof (cases b)
      case True
      have m: "take 4 (x # xs) = marker" using Inr True hdr_True[of "x # xs"] by simp
      have sc: "scan data (Suc i) [] (int i) = Inr (acc', start')"
        using Suc.prems(2) Inr True by (simp add: scan_step[OF lt] d)
      have "0 \<le> start' \<and> start' \<le> int (length data) \<and>
         acc' @ [drop (nat start') data] =
           [] @ (case pieces (drop (Suc i) data) of
                    (pre, ss) \<Rightarrow> (take (Suc i - nat (int i)) (drop (nat (int i)) data) @ pre) # ss)"
        using lt by (intro scan_result[OF _ _ _ sc]) auto
      then show ?thesis using m lt d by (simp add: d' p)
    next
      case False
      have m: "take 4 (x # xs) \<noteq> marker" using Inr False hdr_True[of "x # xs"] by simp
      have sc: "scan data (Suc i) [] (- 1) = Inr (acc', start')"
        using Suc.prems(2) Inr False by (simp add: scan_step[OF lt] d)
      show ?thesis
        using Suc.hyps(1)[OF n _ sc] lt m by (simp add: d d' p)
    qed
  qed
qed

lemma slice_to_end:
  "0 \<le> start \<Longrightarrow> start \<le> int (length data) \<Longrightarrow>
   slice data start (int (length data)) = Inr (drop (nat start) data)"
  by (simp add: slice_def)

lemma scan_total:
  "\<not> dangling data \<Longrightarrow> \<exists>acc start. scan data 0 [] (- 1) = Inr (acc, start)"
  using scan_abort[of 0 data "- 1" "[]"]
  by (cases "scan data 0 [] (- 1)") auto

lemma splitAsh0Bundle_pieces:
  "splitAsh0Bundle data =
     (if dangling data then Inl IndexOutOfRange
      else if snd (pieces data) = [] then Inl (OsExit 1)
      else Inr (snd (pieces data)))"
proof (cases "dangling data")
  case True
  then have "scan data 0 [] (- 1) = Inl IndexOutOfRange"
    using scan_abort[of 0 data "- 1" "[]" IndexOutOfRange] by simp
  then show ?thesis using True by (simp add: splitAsh0Bundle_def)
next
  case False
  then obtain acc start where sc: "scan data 0 [] (- 1) = Inr (acc, start)"
    using scan_total by blast
  show ?thesis
    using scan_first[OF _ sc] False
    by (auto simp: splitAsh0Bundle_def sc slice_to_end split: if_splits)
qed

lemma splitAsh0Bundle_part000_pieces:
  "splitAsh0Bundle_part000 data =
     (if dangling data then Inl IndexOutOfRange
      else if snd (pieces data) = [] then Inl SliceBoundsOutOfRange
      else Inr (snd (pieces data)))"
proof (cases "dangling data")
  case True
  then have "scan data 0 [] (- 1) = Inl IndexOutOfRange"
    using scan_abort[of 0 data "- 1" "[]" IndexOutOfRange] by simp
  then show ?thesis using True by (simp add: splitAsh0Bundle_part000_def)
next
  case False
  then obtain acc start where sc: "scan data 0 [] (- 1) = Inr (acc, start)"
    using scan_total by blast
  show ?thesis
    using scan_first[OF _ sc] False
    by (auto simp: splitAsh0Bundle_part000_def sc slice_to_end slice_def split: if_splits)
qed

lemma splitAsh0Bundle_panic:
  "splitAsh0Bundle data = Inl IndexOutOfRange \<longleftrightarrow> dangling data"
  by (simp add: splitAsh0Bundle_pieces)

section \<open>Segments and marker occurrences\<close>

lemma has_marker_Nil: "\<not> has_marker []"
  by (simp add: has_marker_def marker_def)

lemma has_marker_Cons: "has_marker (x # xs) \<longleftrightarrow> take 4 (x # xs) = marker \<or> has_marker xs"
  by (simp add: has_marker_def length_marker)

lemma pieces_concat: "fst (pieces data) @ concat (snd (pieces data)) = data"
  by (induction data) (auto split: prod.splits)

lemma pieces_none: "snd (pieces data) = [] \<longleftrightarrow> \<not> has_marker data"
  by (induction data) (auto simp: has_marker_Nil has_marker_Cons split: prod.splits)

lemma pieces_no_marker: "\<not> has_marker data \<Longrightarrow> pieces data = (data, [])"
  using pieces_none[of data] pieces_concat[of data] by (cases "pieces data") simp

lemma find_marker_None: "find_marker data = None \<longleftrightarrow> \<not> has_marker data"
  by (induction data) (auto simp: has_marker_Nil has_marker_Cons)

lemma find_marker_pieces: "find_marker data = Some p \<Longrightarrow> p = length (fst (pieces data))"
  by (induction data arbitrary: p) (auto split: prod.splits if_splits)

lemma find_marker_first:
  "find_marker data = Some p \<Longrightarrow>
     take 4 (drop p data) = marker \<and> (\<forall>q<p. take 4 (drop q data) \<noteq> marker)"
proof (induction data arbitrary: p)
  case Nil
  then show ?case by simp
next
  case (Cons x xs)
  show ?case
  proof (cases "take 4 (x # xs) = marker")
    case True
    then show ?thesis using Cons.prems by simp
  next
    case False
    then obtain p' where p': "find_marker xs = Some p'" "p = Suc p'"
      using Cons.prems by auto
    have "\<forall>q<Suc p'. take 4 (drop q (x # xs)) \<noteq> marker"
    proof (intro allI impI)
      fix q assume "q < Suc p'"
      then show "take 4 (drop q (x # xs)) \<noteq> marker"
        using Cons.IH[OF p'(1)] False by (cases q) auto
    qed
    then show ?thesis using Cons.IH[OF p'(1)] p'(2) by simp
  qed
qed

lemma pieces_drop:
  "find_marker data = Some p \<Longrightarrow> concat (snd (pieces data)) = drop p data"
  using pieces_concat[of data] find_marker_pieces[of data p]
  by (metis append_eq_conv_conj)

lemma pieces_after_marker:
  assumes "take 4 (x # xs) = marker"
  shows "\<exists>rest. xs = ''SH0'' @ rest \<and> pieces xs = (''SH0'' @ fst (pieces rest), snd (pieces rest))"
proof -
  obtain rest where xs: "xs = ''SH0'' @ rest"
    using assms by (cases xs rule: hdr.cases) (auto simp: marker_def)
  show ?thesis
    unfolding xs by (auto simp: marker_def split: prod.splits)
qed

lemma pieces_starts: "\<forall>s\<in>set (snd (pieces data)). take 4 s = marker"
proof (induction data)
  case Nil
  then show ?case by simp
next
  case (Cons x xs)
  show ?case
  proof (cases "take 4 (x # xs) = marker")
    case True
    then obtain rest where r: "xs = ''SH0'' @ rest"
        "pieces xs = (''SH0'' @ fst (pieces rest), snd (pieces rest))"
      using pieces_after_marker by blast
    have "x = CHR ''A''" using True by (simp add: marker_def)
    then show ?thesis using Cons.IH True by (simp add: r(2) marker_def)
  next
    case False
    then show ?thesis using Cons.IH by (simp split: prod.splits)
  qed
qed

lemma pieces_marker_app:
  "pieces (marker @ r) = ([], (marker @ fst (pieces r)) # snd (pieces r))"
  by (simp add: marker_def split: prod.splits)

lemma no_straddle:
  assumes "take 4 (x # xs) \<noteq> marker"
  shows "take 4 (x # xs @ marker @ r) \<noteq> marker"
proof (cases "3 \<le> length xs")
  case True
  then show ?thesis using assms by simp
next
  case False
  then consider "xs = []" | a where "xs = [a]" | a b where "xs = [a, b]"
    by (cases xs rule: hdr.cases) auto
  then show ?thesis by cases (auto simp: marker_def)
qed

lemma pieces_app_marker:
  "\<not> has_marker X \<Longrightarrow> pieces (X @ marker @ r) = (X, snd (pieces (marker @ r)))"
proof (induction X)
  case Nil
  then show ?case by (simp add: pieces_marker_app)
next
  case (Cons x X)
  then have "take 4 (x # X) \<noteq> marker" "\<not> has_marker X"
    by (simp_all add: has_marker_Cons)
  then show ?case
    using Cons.IH no_straddle[of x X r] by simp
qed

lemma split_four:
  assumes "\<not> has_marker X" "\<not> has_marker Y" "\<not> has_marker Z" "\<not> has_marker W"
  shows "snd (pieces (marker @ X @ marker @ Y @ marker @ Z @ marker @ W)) =
         [marker @ X, marker @ Y, marker @ Z, marker @ W]"
  using assms
  by (simp add: pieces_marker_app pieces_app_marker pieces_no_marker)

lemma part000_same:
  "has_marker data \<Longrightarrow> splitAsh0Bundle_part000 data = splitAsh0Bundle data"
  by (simp add: splitAsh0Bundle_pieces splitAsh0Bundle_part000_pieces pieces_none)

section \<open>The status line\<close>

lemma takeWhile_take: "takeWhile P (take n xs) = take n (takeWhile P xs)"
proof (induction xs arbitrary: n)
  case Nil
  then show ?case by simp
next
  case (Cons x xs)
  then show ?case by (cases n) auto
qed

lemma prefix_dropCR: "prefix (dropCR xs) xs"
  by (simp add: dropCR_def prefix_def) (metis append_butlast_last_id)

lemma ReadLine_prefix:
  assumes "ReadLine data = Inr status"
  shows "prefix status (first_line data)"
proof -
  define buf where "buf = take 4096 data"
  define line where "line = takeWhile (\<lambda>b. b \<noteq> CHR 0x0A) buf"
  have t: "line = take 4096 (first_line data)"
    by (simp add: line_def buf_def first_line_def takeWhile_take)
  have full: "line = buf" if "\<not> length line < length buf"
  proof -
    have "line = take (length line) buf" unfolding line_def by (rule takeWhile_eq_take)
    moreover have "length line \<le> length buf" unfolding line_def by (rule length_takeWhile_le)
    ultimately show ?thesis using that by simp
  qed
  have "status = dropCR line \<or> status = line"
  proof (cases "length line < length buf")
    case True
    then show ?thesis using assms by (simp add: ReadLine_def Let_def buf_def[symmetric] line_def[symmetric])
  next
    case False
    then show ?thesis
      using assms full[OF False]
      by (auto simp add: ReadLine_def Let_def buf_def[symmetric] line_def[symmetric] split: if_splits)
  qed
  moreover have "prefix line (first_line data)" unfolding t by (rule take_is_prefix)
  moreover have "prefix (dropCR line) line" by (rule prefix_dropCR)
  ultimately show ?thesis by (auto intro: prefix_order.trans)
qed

lemma strings_Contains_Nil: "strings_Contains s []"
  by (cases s) simp_all

lemma strings_Contains_append:
  "strings_Contains a s \<Longrightarrow> strings_Contains (a @ c) s"
proof (induction a)
  case Nil
  then show ?case by (simp add: strings_Contains_Nil)
next
  case (Cons x a)
  show ?case
  proof (cases "take (length s) (x # a) = s")
    case True
    have "length (take (length s) (x # a)) = length s" by (simp only: True)
    then have "length s \<le> length (x # a)" by simp
    then have "take (length s) ((x # a) @ c) = take (length s) (x # a)"
      by (simp only: take_append) simp
    then have "take (length s) ((x # a) @ c) = s" using True by (simp only:)
    then show ?thesis by simp
  next
    case False
    then show ?thesis using Cons by simp
  qed
qed

lemma strings_Contains_prefix:
  "prefix a b \<Longrightarrow> strings_Contains a s \<Longrightarrow> strings_Contains b s"
  by (auto simp: prefix_def strings_Contains_append)

lemma ReadLine_Inl: "ReadLine data = Inl e \<longleftrightarrow> data = [] \<and> e = io_EOF"
  by (auto simp: ReadLine_def Let_def)

lemma convert_skipped:
  assumes "\<not> strings_Contains (first_line data) ''200''"
  shows "convertLevelData env ident data w = (w, Inr (if data = [] then Some io_EOF else None))"
proof (cases "ReadLine data")
  case (Inl e)
  then show ?thesis using ReadLine_Inl[of data e] by (simp add: convertLevelData_def)
next
  case (Inr status)
  then have "data \<noteq> []" using ReadLine_Inl[of data io_EOF] by auto
  moreover have "\<not> strings_Contains status ''200''"
    using assms ReadLine_prefix[OF Inr] strings_Contains_prefix by blast
  ultimately show ?thesis using Inr by (simp add: convertLevelData_def)
qed

section \<open>Writing the entries\<close>

lemma length_four: "length xs = 4 \<Longrightarrow> \<exists>a b c d. xs = [a, b, c, d]"
  by (auto simp: numeral_eq_Suc length_Suc_conv)

lemma length_fileNames: "length fileNames = 4"
  by (simp add: fileNames_def)

lemma write_entries_ok:
  assumes "write_entries env path segs i names tw = (tw', f, Inr None)"
  shows "\<not> f \<and> length names \<le> length segs - i \<and>
         (\<exists>ds. length ds = length names \<and>
            (\<forall>k<length names. Decompress env (segs ! (i + k)) = Some (ds ! k)) \<and>
            tw' = tw @ map2 archive_entry names ds)"
  using assms
proof (induction names arbitrary: i tw)
  case Nil
  then show ?case by simp
next
  case (Cons n names)
  from Cons.prems obtain d where i: "i < length segs" and d: "Decompress env (segs ! i) = Some d"
    and rest: "write_entries env path segs (Suc i) names (tw @ [archive_entry n d]) = (tw', f, Inr None)"
    by (auto simp: archive_entry_def split: if_splits option.splits)
  from Cons.IH[OF rest] obtain ds where nf: "\<not> f" and len: "length names \<le> length segs - Suc i"
    and ds: "length ds = length names"
      "\<forall>k<length names. Decompress env (segs ! (Suc i + k)) = Some (ds ! k)"
      "tw' = (tw @ [archive_entry n d]) @ map2 archive_entry names ds"
    by blast
  have "\<forall>k<length (n # names). Decompress env (segs ! (i + k)) = Some ((d # ds) ! k)"
  proof (intro allI impI)
    fix k assume "k < length (n # names)"
    then show "Decompress env (segs ! (i + k)) = Some ((d # ds) ! k)"
      using d ds(2) by (cases k) auto
  qed
  moreover have "length (d # ds) = length (n # names)" using ds(1) by simp
  moreover have "tw' = tw @ map2 archive_entry (n # names) (d # ds)" using ds(3) by simp
  ultimately show ?case using len i nf by (intro conjI exI[of _ "d # ds"]) auto
qed

lemma write_entries_nil:
  assumes "Decompress env (segs ! (i + k)) = None" "k < length names"
    and "write_entries env path segs i names tw = (tw', f, r)"
  shows "r \<noteq> Inr None \<and> length tw' \<le> length tw + k \<and> take (length tw) tw' = tw"
  using assms
proof (induction names arbitrary: i k tw)
  case Nil
  then show ?case by simp
next
  case (Cons n names)
  show ?case
  proof (cases k)
    case 0
    then show ?thesis using Cons.prems by (auto split: if_splits)
  next
    case (Suc k')
    then have a: "Decompress env (segs ! (Suc i + k')) = None" "k' < length names"
      using Cons.prems by simp_all
    show ?thesis
    proof (cases "\<exists>d. write_entries env path segs (Suc i) names (tw @ [archive_entry n d]) = (tw', f, r)")
      case True
      then obtain d where
        rest: "write_entries env path segs (Suc i) names (tw @ [archive_entry n d]) = (tw', f, r)"
        by blast
      from Cons.IH[OF a rest] have r: "r \<noteq> Inr None"
        and l: "length tw' \<le> length (tw @ [archive_entry n d]) + k'"
        and t: "take (length (tw @ [archive_entry n d])) tw' = tw @ [archive_entry n d]"
        by simp_all
      have "take (length tw) (take (length (tw @ [archive_entry n d])) tw') = tw"
        unfolding t by simp
      then have "take (length tw) tw' = tw" by simp
      then show ?thesis using r l Suc by simp
    next
      case False
      then show ?thesis
        using Cons.prems(3) Suc
        by (auto simp: archive_entry_def split: if_splits option.splits)
    qed
  qed
qed

lemma write_entries_result:
  assumes "i + length names \<le> length segs"
    and "write_entries env path segs i names tw = (tw', f, r)"
  shows "(\<exists>x. r = Inr x) \<and>
         ((\<forall>n. WriteHeader_err env path n = None \<and> Write_err env path n = None) \<longrightarrow>
            \<not> f \<and> (r = Inr None \<or> r = Inr (Some (errors_New ''failed to decompress''))))"
  using assms
proof (induction names arbitrary: i tw)
  case Nil
  then show ?case by auto
next
  case (Cons n names)
  show ?case
  proof (cases "\<exists>d. write_entries env path segs (Suc i) names (tw @ [archive_entry n d]) = (tw', f, r)")
    case True
    then obtain d where
      rest: "write_entries env path segs (Suc i) names (tw @ [archive_entry n d]) = (tw', f, r)"
      by blast
    have "Suc i + length names \<le> length segs" using Cons.prems(1) by simp
    from Cons.IH[OF this rest] show ?thesis .
  next
    case False
    then show ?thesis
      using Cons.prems
      by (auto simp: archive_entry_def split: if_splits option.splits)
  qed
qed

lemma convert_ok:
  assumes "convertLevelData env ident data w = (w', Inr None)"
  shows "(\<exists>status. ReadLine data = Inr status \<and> \<not> strings_Contains status ''200'' \<and> w' = w) \<or>
         (\<exists>status segs tw. ReadLine data = Inr status \<and> strings_Contains status ''200'' \<and>
            splitAsh0Bundle data = Inr segs \<and> length segs = 4 \<and>
            write_entries env (output_path ident) segs 0 fileNames [] = (tw, False, Inr None) \<and>
            w' = put_file w (output_path ident) (deferred_Close env (output_path ident) False tw))"
proof -
  have f: "\<not> f" if "write_entries env (output_path ident) segs 0 fileNames [] = (tw, f, Inr None)"
    for segs tw f
    using write_entries_ok[OF that] by simp
  show ?thesis
    using assms
    by (auto simp: convertLevelData_def Let_def length_fileNames dest: f
        split: sum.splits if_splits option.splits abort.splits prod.splits)
qed

lemma convert_four_entries:
  assumes "convertLevelData env ident data w = (w', Inr None)"
    and "ReadLine data = Inr status" "strings_Contains status ''200''"
  shows "\<exists>s0 s1 s2 s3 d0 d1 d2 d3.
            splitAsh0Bundle data = Inr [s0, s1, s2, s3] \<and>
            Decompress env s0 = Some d0 \<and> Decompress env s1 = Some d1 \<and>
            Decompress env s2 = Some d2 \<and> Decompress env s3 = Some d3 \<and>
            w' = put_file w (output_path ident)
                   (deferred_Close env (output_path ident) False
                      [archive_entry ''thumbnail0.tnl'' d0, archive_entry ''course_data.cdt'' d1,
                       archive_entry ''course_data_sub.cdt'' d2, archive_entry ''thumbnail1.tnl'' d3])"
proof -
  from convert_ok[OF assms(1)] assms(2,3)
  obtain segs tw where s: "splitAsh0Bundle data = Inr segs" "length segs = 4"
    and we: "write_entries env (output_path ident) segs 0 fileNames [] = (tw, False, Inr None)"
    and w': "w' = put_file w (output_path ident) (deferred_Close env (output_path ident) False tw)"
    by auto
  obtain s0 s1 s2 s3 where segs: "segs = [s0, s1, s2, s3]"
    using length_four[OF s(2)] by blast
  from we obtain d0 d1 d2 d3 where
    "Decompress env s0 = Some d0" "Decompress env s1 = Some d1"
    "Decompress env s2 = Some d2" "Decompress env s3 = Some d3"
    "tw = [archive_entry ''thumbnail0.tnl'' d0, archive_entry ''course_data.cdt'' d1,
           archive_entry ''course_data_sub.cdt'' d2, archive_entry ''thumbnail1.tnl'' d3]"
    unfolding segs fileNames_def
    by (auto simp: archive_entry_def split: option.splits)
  then show ?thesis using s(1) w' segs by blast
qed

section \<open>The sample inputs evaluated\<close>

lemma status_200: "strings_Contains ''HTTP/1.1 200 OK'' ''200''"
  by code_simp

lemma two_status: "ReadLine (ok_status @ ''ASH0aASH0b'') = Inr ''HTTP/1.1 200 OK''"
  by code_simp

lemma two_split: "splitAsh0Bundle (ok_status @ ''ASH0aASH0b'') = Inr [''ASH0a'', ''ASH0b'']"
  by code_simp



lemma four_status: "ReadLine (ok_status @ ''ASH0aASH0bASH0cASH0d'') = Inr ''HTTP/1.1 200 OK''"
  by code_simp

lemma four_split:
  "splitAsh0Bundle (ok_status @ ''ASH0aASH0bASH0cASH0d'') =
     Inr [''ASH0a'', ''ASH0b'', ''ASH0c'', ''ASH0d'']"
  by code_simp

lemma bare_status: "ReadLine (ok_status @ ''ASH0aASH0bASH0ASH0d'') = Inr ''HTTP/1.1 200 OK''"
  by code_simp

lemma bare_split:
  "splitAsh0Bundle (ok_status @ ''ASH0aASH0bASH0ASH0d'') =
     Inr [''ASH0a'', ''ASH0b'', ''ASH0'', ''ASH0d'']"
  by code_simp

lemma plain_status: "ReadLine (ok_status @ ''not a bundle'') = Inr ''HTTP/1.1 200 OK''"
  by code_simp

lemma plain_split: "splitAsh0Bundle (ok_status @ ''not a bundle'') = Inl (OsExit 1)"
  by code_simp

lemma sample_url: "url_Parse sample_env u = Inr u"
  by (simp add: sample_env_def)

lemma sample_io:
  "Create_err sample_env p = None" "NewWriter_err sample_env p = None"
  by (simp_all add: sample_env_def)

lemma sample_close: "deferred_Close sample_env p False tw = Archive tw"
  by (simp add: deferred_Close_def Close_ok_def sample_env_def)

lemma sample_Close_ok: "Close_ok sample_env p"
  by (simp add: Close_ok_def sample_env_def)

lemma four_convert:
  "convertLevelData sample_env ident (ok_status @ ''ASH0aASH0bASH0cASH0d'') w =
     (put_file w (output_path ident)
        (Archive [archive_entry ''thumbnail0.tnl'' ''a'', archive_entry ''course_data.cdt'' ''b'',
                  archive_entry ''course_data_sub.cdt'' ''c'', archive_entry ''thumbnail1.tnl'' ''d'']),
      Inr None)"
  by (simp add: convertLevelData_def four_status status_200 four_split sample_env_def
      fileNames_def archive_entry_def deferred_Close_def Close_ok_def)

lemma two_convert:
  "convertLevelData sample_env ident (ok_status @ ''ASH0aASH0b'') w =
     (put_file w (output_path ident) (Archive []), Inr (Some (errors_New ''failed to split data'')))"
  by (simp add: convertLevelData_def two_status status_200 two_split sample_io sample_close
      fileNames_def)

lemma plain_convert:
  "convertLevelData sample_env ident (ok_status @ ''not a bundle'') w =
     (put_file w (output_path ident) Created, Inl (OsExit 1))"
  by (simp add: convertLevelData_def plain_status status_200 plain_split sample_io)

lemma tail_status: "ReadLine (ok_status @ ''ASH0aASH0bASH0cASH0dA'') = Inr ''HTTP/1.1 200 OK''"
  by code_simp

section \<open>Claims\<close>

subsection \<open>C1: the entries of the output archive\<close>

text \<open>
  Claim C1 as stated fails. The source discards the results of the three deferred
  \<^verbatim>\<open>Close\<close> calls: on a full disk \<^verbatim>\<open>convertLevelData\<close> returns \<^verbatim>\<open>nil\<close> for a payload of
  four well-formed segments and leaves an incomplete file, not an archive of four
  entries. And for a payload whose status line is not 200 it returns \<^verbatim>\<open>nil\<close> and no
  archive is written, even when four well-formed segments follow the status line.
\<close>

theorem C1_counterexample:
  "convertLevelData full_disk_env ''lvl'' (ok_status @ ''ASH0aASH0bASH0cASH0d'') sample_world =
     (put_file sample_world ''output/lvl.tar.zst'' Incomplete, Inr None) \<and>
   convertLevelData sample_env ''lvl''
     (''HTTP/1.1 404 Not Found'' @ [CHR 0x0D, CHR 0x0A] @ ''ASH0aASH0bASH0cASH0d'') sample_world =
     (sample_world, Inr None) \<and>
   files sample_world (output_path ''lvl'') = None"
proof -
  have a: "convertLevelData full_disk_env ''lvl'' (ok_status @ ''ASH0aASH0bASH0cASH0d'') sample_world =
     (put_file sample_world ''output/lvl.tar.zst'' Incomplete, Inr None)"
    by (simp add: convertLevelData_def four_status status_200 four_split full_disk_env_def
        sample_env_def fileNames_def output_path_def deferred_Close_def Close_ok_def)
  have "\<not> strings_Contains
          (first_line (''HTTP/1.1 404 Not Found'' @ [CHR 0x0D, CHR 0x0A] @ ''ASH0aASH0bASH0cASH0d''))
          ''200''"
    by code_simp
  from convert_skipped[OF this] a show ?thesis by (simp add: sample_world_def)
qed

text \<open>
  Claim C1, amended. Whenever \<^verbatim>\<open>convertLevelData\<close> returns \<^verbatim>\<open>nil\<close>, the status line that
  \<^verbatim>\<open>ReadLine\<close> returns contains 200 and the three deferred \<^verbatim>\<open>Close\<close> calls succeed, the
  payload was split into four segments, each of them was decoded, and the file
  \<^verbatim>\<open>output/<id>.tar.zst\<close> is an archive of exactly four entries named
  \<^verbatim>\<open>thumbnail0.tnl\<close>, \<^verbatim>\<open>course_data.cdt\<close>, \<^verbatim>\<open>course_data_sub.cdt\<close>, \<^verbatim>\<open>thumbnail1.tnl\<close>, in
  this order, the entry at each position having the length of the decoded segment of
  that position as size and its bytes as content. And whenever the status line that
  \<^verbatim>\<open>ReadLine\<close> returns does not contain 200, \<^verbatim>\<open>convertLevelData\<close> returns \<^verbatim>\<open>nil\<close> and
  leaves the world as it is: no archive is written.
\<close>

theorem C1_archive_entries:
  "(convertLevelData env ident data w = (w', Inr None) \<longrightarrow>
    ReadLine data = Inr status \<longrightarrow> strings_Contains status ''200'' \<longrightarrow>
    Close_ok env (output_path ident) \<longrightarrow>
      (\<exists>s0 s1 s2 s3 d0 d1 d2 d3.
         splitAsh0Bundle data = Inr [s0, s1, s2, s3] \<and>
         Decompress env s0 = Some d0 \<and> Decompress env s1 = Some d1 \<and>
         Decompress env s2 = Some d2 \<and> Decompress env s3 = Some d3 \<and>
         w' = put_file w (output_path ident)
                (Archive [archive_entry ''thumbnail0.tnl'' d0, archive_entry ''course_data.cdt'' d1,
                          archive_entry ''course_data_sub.cdt'' d2, archive_entry ''thumbnail1.tnl'' d3]))) \<and>
   (ReadLine data = Inr status \<longrightarrow> \<not> strings_Contains status ''200'' \<longrightarrow>
      convertLevelData env ident data w = (w, Inr None))"
proof (intro conjI impI)
  assume "convertLevelData env ident data w = (w', Inr None)" "ReadLine data = Inr status"
    "strings_Contains status ''200''" "Close_ok env (output_path ident)"
  then show "\<exists>s0 s1 s2 s3 d0 d1 d2 d3.
         splitAsh0Bundle data = Inr [s0, s1, s2, s3] \<and>
         Decompress env s0 = Some d0 \<and> Decompress env s1 = Some d1 \<and>
         Decompress env s2 = Some d2 \<and> Decompress env s3 = Some d3 \<and>
         w' = put_file w (output_path ident)
                (Archive [archive_entry ''thumbnail0.tnl'' d0, archive_entry ''course_data.cdt'' d1,
                          archive_entry ''course_data_sub.cdt'' d2, archive_entry ''thumbnail1.tnl'' d3])"
    using convert_four_entries[of env ident data w w' status] by (simp add: deferred_Close_def)
next
  assume "ReadLine data = Inr status" "\<not> strings_Contains status ''200''"
  then show "convertLevelData env ident data w = (w, Inr None)"
    by (simp add: convertLevelData_def)
qed

text \<open>The amended C1 on the sample payload of four segments, and on a payload with
  status 404.\<close>

theorem C1_archive_entries_witness:
  "(\<exists>s0 s1 s2 s3 d0 d1 d2 d3.
      splitAsh0Bundle (ok_status @ ''ASH0aASH0bASH0cASH0d'') = Inr [s0, s1, s2, s3] \<and>
      Decompress sample_env s0 = Some d0 \<and> Decompress sample_env s1 = Some d1 \<and>
      Decompress sample_env s2 = Some d2 \<and> Decompress sample_env s3 = Some d3 \<and>
      fst (convertLevelData sample_env ''lvl'' (ok_status @ ''ASH0aASH0bASH0cASH0d'') sample_world) =
        put_file sample_world (output_path ''lvl'')
          (Archive [archive_entry ''thumbnail0.tnl'' d0, archive_entry ''course_data.cdt'' d1,
                    archive_entry ''course_data_sub.cdt'' d2, archive_entry ''thumbnail1.tnl'' d3])) \<and>
   convertLevelData sample_env ''lvl''
     (''HTTP/1.1 404 Not Found'' @ [CHR 0x0D, CHR 0x0A] @ ''ASH0a'') sample_world =
     (sample_world, Inr None)"
proof -
  have ok: "convertLevelData sample_env ''lvl'' (ok_status @ ''ASH0aASH0bASH0cASH0d'') sample_world =
     (fst (convertLevelData sample_env ''lvl'' (ok_status @ ''ASH0aASH0bASH0cASH0d'') sample_world), Inr None)"
    by (simp add: four_convert)
  have st: "ReadLine (''HTTP/1.1 404 Not Found'' @ [CHR 0x0D, CHR 0x0A] @ ''ASH0a'') =
              Inr ''HTTP/1.1 404 Not Found''"
    by code_simp
  have no: "\<not> strings_Contains ''HTTP/1.1 404 Not Found'' ''200''"
    by code_simp
  from C1_archive_entries[of sample_env "''lvl''" "ok_status @ ''ASH0aASH0bASH0cASH0d''" sample_world
      "fst (convertLevelData sample_env ''lvl'' (ok_status @ ''ASH0aASH0bASH0cASH0d'') sample_world)"
      "''HTTP/1.1 200 OK''"]
    ok four_status status_200 sample_Close_ok[of "output_path ''lvl''"]
  have a: "\<exists>s0 s1 s2 s3 d0 d1 d2 d3.
      splitAsh0Bundle (ok_status @ ''ASH0aASH0bASH0cASH0d'') = Inr [s0, s1, s2, s3] \<and>
      Decompress sample_env s0 = Some d0 \<and> Decompress sample_env s1 = Some d1 \<and>
      Decompress sample_env s2 = Some d2 \<and> Decompress sample_env s3 = Some d3 \<and>
      fst (convertLevelData sample_env ''lvl'' (ok_status @ ''ASH0aASH0bASH0cASH0d'') sample_world) =
        put_file sample_world (output_path ''lvl'')
          (Archive [archive_entry ''thumbnail0.tnl'' d0, archive_entry ''course_data.cdt'' d1,
                    archive_entry ''course_data_sub.cdt'' d2, archive_entry ''thumbnail1.tnl'' d3])"
    by blast
  from C1_archive_entries[of sample_env "''lvl''"
      "''HTTP/1.1 404 Not Found'' @ [CHR 0x0D, CHR 0x0A] @ ''ASH0a''" sample_world sample_world
      "''HTTP/1.1 404 Not Found''"] st no
  have b: "convertLevelData sample_env ''lvl''
     (''HTTP/1.1 404 Not Found'' @ [CHR 0x0D, CHR 0x0A] @ ''ASH0a'') sample_world =
     (sample_world, Inr None)"
    by blast
  from a b show ?thesis by (rule conjI)
qed

subsection \<open>C2: four segments between four markers\<close>

text \<open>
  Claim C2 as stated fails: on a buffer of four markers, each followed by one byte, the
  splitter returns each segment with its marker, not the bytes between the markers.
\<close>

theorem C2_counterexample:
  "\<not> has_marker ''w'' \<and> \<not> has_marker ''x'' \<and> \<not> has_marker ''y'' \<and> \<not> has_marker ''z'' \<and>
   splitAsh0Bundle (''ASH0'' @ ''w'' @ ''ASH0'' @ ''x'' @ ''ASH0'' @ ''y'' @ ''ASH0'' @ ''z'')
     = Inr [''ASH0w'', ''ASH0x'', ''ASH0y'', ''ASH0z''] \<and>
   splitAsh0Bundle (''ASH0'' @ ''w'' @ ''ASH0'' @ ''x'' @ ''ASH0'' @ ''y'' @ ''ASH0'' @ ''z'')
     \<noteq> Inr [''w'', ''x'', ''y'', ''z'']"
  by code_simp

text \<open>
  Claim C2, amended. For a buffer made of the marker and \<open>X\<close>, the marker and \<open>Y\<close>,
  the marker and \<open>Z\<close>, the marker and \<open>W\<close>, where none of \<open>X\<close>, \<open>Y\<close>, \<open>Z\<close>,
  \<open>W\<close> holds a marker and \<open>W\<close> does not end inside a marker, the splitter returns
  exactly four segments, each of them the marker followed by its bytes.
\<close>

theorem C2_four_segments:
  assumes "\<not> has_marker X" "\<not> has_marker Y" "\<not> has_marker Z" "\<not> has_marker W"
    and "\<not> dangling W"
  shows "splitAsh0Bundle (marker @ X @ marker @ Y @ marker @ Z @ marker @ W) =
           Inr [marker @ X, marker @ Y, marker @ Z, marker @ W]"
proof -
  have "\<not> dangling (marker @ X @ marker @ Y @ marker @ Z @ marker @ W)"
    using assms(5) dangling_app_marker[of "marker @ X @ marker @ Y @ marker @ Z" W] by simp
  then show ?thesis
    using split_four[OF assms(1-4)] by (simp add: splitAsh0Bundle_pieces)
qed

text \<open>The amended C2 on four one-byte payloads.\<close>

theorem C2_four_segments_witness:
  "splitAsh0Bundle (marker @ ''w'' @ marker @ ''x'' @ marker @ ''y'' @ marker @ ''z'') =
     Inr [marker @ ''w'', marker @ ''x'', marker @ ''y'', marker @ ''z'']"
proof -
  have "\<not> has_marker ''w''" "\<not> has_marker ''x''" "\<not> has_marker ''y''" "\<not> has_marker ''z''"
       "\<not> dangling ''z''"
    by code_simp+
  then show ?thesis by (rule C2_four_segments)
qed

subsection \<open>C3: the scan at the end of the buffer\<close>

text \<open>
  Claim C3 says that the scan never reads past the end of the buffer and does not crash.
  The source indexes \<^verbatim>\<open>data[i+1]\<close>, \<^verbatim>\<open>data[i+2]\<close>, \<^verbatim>\<open>data[i+3]\<close> for every
  \<^verbatim>\<open>i < len(data)\<close>: on a buffer whose last one, two or three bytes begin a marker the
  index is out of range and the run-time panic stops the process, in both versions of
  the splitter; so does \<^verbatim>\<open>convertLevelData\<close> on a payload of four well-formed segments
  whose last byte is \<^verbatim>\<open>'A'\<close>.
\<close>

theorem C3_tail_panic:
  "splitAsh0Bundle ''ASH0xA'' = Inl IndexOutOfRange \<and>
   splitAsh0Bundle ''ASH0xAS'' = Inl IndexOutOfRange \<and>
   splitAsh0Bundle ''ASH0xASH'' = Inl IndexOutOfRange \<and>
   splitAsh0Bundle_part000 ''ASH0xA'' = Inl IndexOutOfRange \<and>
   splitAsh0Bundle (ok_status @ ''ASH0aASH0bASH0cASH0dA'') = Inl IndexOutOfRange \<and>
   convertLevelData sample_env ''lvl'' (ok_status @ ''ASH0aASH0bASH0cASH0dA'') sample_world =
     (put_file sample_world ''output/lvl.tar.zst'' (Archive []), Inl IndexOutOfRange)"
proof -
  have p: "splitAsh0Bundle ''ASH0xA'' = Inl IndexOutOfRange"
    "splitAsh0Bundle ''ASH0xAS'' = Inl IndexOutOfRange"
    "splitAsh0Bundle ''ASH0xASH'' = Inl IndexOutOfRange"
    "splitAsh0Bundle_part000 ''ASH0xA'' = Inl IndexOutOfRange"
    "splitAsh0Bundle (ok_status @ ''ASH0aASH0bASH0cASH0dA'') = Inl IndexOutOfRange"
    by code_simp+
  show ?thesis
    by (simp add: p convertLevelData_def tail_status status_200 sample_io sample_close
        output_path_def)
qed

subsection \<open>C4: a buffer without marker\<close>

text \<open>
  Claim C4 as stated fails: on a payload without marker the splitter exits the process
  with status 1, and the run over two records stops at the first, leaving its created
  file empty and the second record unread.
\<close>

theorem C4_counterexample:
  "\<not> has_marker (ok_status @ ''not a bundle'') \<and>
   splitAsh0Bundle (ok_status @ ''not a bundle'') = Inl (OsExit 1) \<and>
   extract_file sample_env
     [response_record ''/c/one'' (ok_status @ ''not a bundle''),
      response_record ''/c/two'' (ok_status @ ''ASH0aASH0bASH0cASH0d'')] sample_world =
     (put_file sample_world ''output/one.tar.zst'' Created, Inl (OsExit 1))"
proof -
  have "\<not> has_marker (ok_status @ ''not a bundle'')" by code_simp
  then show ?thesis
    by (simp add: plain_split plain_convert response_record_def Header_Get_def sample_url
        output_path_def)
qed

text \<open>
  Claim C4, amended. On a buffer without marker the splitter never returns segments
  (in neither version); when the buffer does not end inside a marker, the splitter of
  \<^verbatim>\<open>src/main.go\<close> ends the whole process with \<^verbatim>\<open>os.Exit(1)\<close>, and the splitter of
  the second source file panics on \<^verbatim>\<open>data[start:]\<close> with \<^verbatim>\<open>start\<close> equal to -1.
\<close>

theorem C4_no_marker:
  assumes "\<not> has_marker data"
  shows "(\<forall>segs. splitAsh0Bundle data \<noteq> Inr segs) \<and>
         (\<forall>segs. splitAsh0Bundle_part000 data \<noteq> Inr segs) \<and>
         (\<not> dangling data \<longrightarrow>
            splitAsh0Bundle data = Inl (OsExit 1) \<and>
            splitAsh0Bundle_part000 data = Inl SliceBoundsOutOfRange)"
  using assms
  by (simp add: splitAsh0Bundle_pieces splitAsh0Bundle_part000_pieces pieces_none)

text \<open>The amended C4 on a short buffer without marker.\<close>

theorem C4_no_marker_witness:
  "\<not> has_marker ''HTTP 200'' \<and> \<not> dangling ''HTTP 200'' \<and>
   splitAsh0Bundle ''HTTP 200'' = Inl (OsExit 1) \<and>
   splitAsh0Bundle_part000 ''HTTP 200'' = Inl SliceBoundsOutOfRange"
proof -
  have h: "\<not> has_marker ''HTTP 200''" by code_simp
  have d: "\<not> dangling ''HTTP 200''" by code_simp
  show ?thesis using C4_no_marker[OF h] h d by blast
qed

subsection \<open>C5: a payload of another number of segments, in the run\<close>

text \<open>
  Claim C5 as stated fails: a first record of two segments makes \<^verbatim>\<open>convertLevelData\<close>
  return its error, \<^verbatim>\<open>log.Fatal\<close> ends the process, and the archive of the second
  record is never written.
\<close>

theorem C5_counterexample:
  "splitAsh0Bundle (ok_status @ ''ASH0aASH0b'') = Inr [''ASH0a'', ''ASH0b''] \<and>
   extract_file sample_env
     [response_record ''/c/one'' (ok_status @ ''ASH0aASH0b''),
      response_record ''/c/two'' (ok_status @ ''ASH0aASH0bASH0cASH0d'')] sample_world =
     (put_file sample_world ''output/one.tar.zst'' (Archive []),
      Inl (LogFatal (errors_New ''failed to split data''))) \<and>
   files (put_file sample_world ''output/one.tar.zst'' (Archive [])) ''output/two.tar.zst'' = None"
  by (simp add: two_split two_convert response_record_def Header_Get_def sample_url
      output_path_def put_file_def sample_world_def)

text \<open>
  Claim C5, amended. For a record of type response whose payload passes the status check
  and splits into a number of segments other than 4, the run stops at this record with
  \<^verbatim>\<open>log.Fatal\<close>, whatever records follow; when the output file and its writer can be
  created, the error is \<^verbatim>\<open>failed to split data\<close> and the file of the record is left as
  the deferred \<^verbatim>\<open>Close\<close> calls leave an archive without entries.
\<close>

theorem C5_wrong_count_halts:
  assumes "Header_Get r ''WARC-Type'' = ''response''"
    and "url_Parse env (Header_Get r ''WARC-Target-URI'') = Inr upath"
    and "Content r = Inr data"
    and "ReadLine data = Inr status" "strings_Contains status ''200''"
    and "splitAsh0Bundle data = Inr segs" "length segs \<noteq> 4"
  shows "(\<exists>w' e. extract_file env (r # rs) w = (w', Inl (LogFatal e))) \<and>
         (Create_err env (output_path (last (strings_Split upath CHR ''/''))) = None \<longrightarrow>
          NewWriter_err env (output_path (last (strings_Split upath CHR ''/''))) = None \<longrightarrow>
            extract_file env (r # rs) w =
              (put_file w (output_path (last (strings_Split upath CHR ''/'')))
                 (deferred_Close env (output_path (last (strings_Split upath CHR ''/''))) False []),
               Inl (LogFatal (errors_New ''failed to split data''))))"
  using assms
  by (auto simp: convertLevelData_def Let_def length_fileNames split: option.splits)

text \<open>The amended C5 on a record of two segments followed by a well-formed record.\<close>

theorem C5_wrong_count_halts_witness:
  "extract_file sample_env
     [response_record ''/c/one'' (ok_status @ ''ASH0aASH0b''),
      response_record ''/c/two'' (ok_status @ ''ASH0aASH0bASH0cASH0d'')] sample_world =
     (put_file sample_world (output_path ''one'') (Archive []),
      Inl (LogFatal (errors_New ''failed to split data'')))"
proof -
  have h: "Header_Get (response_record ''/c/one'' (ok_status @ ''ASH0aASH0b'')) ''WARC-Type'' = ''response''"
    "url_Parse sample_env (Header_Get (response_record ''/c/one'' (ok_status @ ''ASH0aASH0b'')) ''WARC-Target-URI'') = Inr ''/c/one''"
    "Content (response_record ''/c/one'' (ok_status @ ''ASH0aASH0b'')) = Inr (ok_status @ ''ASH0aASH0b'')"
    by (simp_all add: response_record_def Header_Get_def sample_url)
  have n: "length [''ASH0a'', ''ASH0b''] \<noteq> 4" by simp
  from C5_wrong_count_halts[OF h two_status status_200 two_split n] show ?thesis
    by (simp add: sample_io sample_close)
qed

subsection \<open>C6: three or five segments\<close>



subsection \<open>C7: a segment that does not decode\<close>

text \<open>
  Claim C7 as stated fails for the empty result: the source compares the decoded slice
  with \<^verbatim>\<open>nil\<close> only, so a decoder that returns an empty slice that is not \<^verbatim>\<open>nil\<close> is
  accepted, and the record succeeds with an entry of size 0.
\<close>

theorem C7_counterexample:
  "Decompress lenient_env ''ASH0'' = Some [] \<and>
   splitAsh0Bundle (ok_status @ ''ASH0aASH0bASH0ASH0d'') = Inr [''ASH0a'', ''ASH0b'', ''ASH0'', ''ASH0d''] \<and>
   convertLevelData lenient_env ''lvl'' (ok_status @ ''ASH0aASH0bASH0ASH0d'') sample_world =
     (put_file sample_world ''output/lvl.tar.zst''
        (Archive [archive_entry ''thumbnail0.tnl'' ''a'', archive_entry ''course_data.cdt'' ''b'',
                  archive_entry ''course_data_sub.cdt'' [], archive_entry ''thumbnail1.tnl'' ''d'']),
      Inr None)"
  by (simp add: convertLevelData_def bare_status status_200 bare_split lenient_env_def sample_env_def
      fileNames_def archive_entry_def output_path_def deferred_Close_def Close_ok_def)

text \<open>
  Claim C7, amended. When the payload passes the status check, the output file and its
  writer are created, the payload splits into four segments and the decoder returns
  \<^verbatim>\<open>nil\<close> for the segment at position \<open>k\<close>, then \<^verbatim>\<open>convertLevelData\<close> returns an error
  and the tar writer has received at most \<open>k\<close> entries, so no entry for this segment or
  a later one; without write errors the error is \<^verbatim>\<open>failed to decompress\<close> and the writer
  has met no error, so that the file is what the deferred \<^verbatim>\<open>Close\<close> calls leave of these
  entries.
\<close>

theorem C7_decode_failure:
  assumes "ReadLine data = Inr status" "strings_Contains status ''200''"
    and "Create_err env (output_path ident) = None" "NewWriter_err env (output_path ident) = None"
    and "splitAsh0Bundle data = Inr segs" "length segs = 4"
    and "k < 4" "Decompress env (segs ! k) = None"
  shows "\<exists>tw f e. convertLevelData env ident data w =
                   (put_file w (output_path ident)
                      (deferred_Close env (output_path ident) f tw), Inr (Some e)) \<and>
                 length tw \<le> k \<and>
                 ((\<forall>n. WriteHeader_err env (output_path ident) n = None \<and>
                       Write_err env (output_path ident) n = None) \<longrightarrow>
                    \<not> f \<and> e = errors_New ''failed to decompress'')"
proof -
  obtain tw f r where we: "write_entries env (output_path ident) segs 0 fileNames [] = (tw, f, r)"
    by (cases "write_entries env (output_path ident) segs 0 fileNames []") auto
  have k: "Decompress env (segs ! (0 + k)) = None" "k < length fileNames"
    using assms(7,8) by (simp_all add: length_fileNames)
  from write_entries_nil[OF k we] have r: "r \<noteq> Inr None" and l: "length tw \<le> k" by simp_all
  have "0 + length fileNames \<le> length segs" using assms(6) by (simp add: length_fileNames)
  from write_entries_result[OF this we] r obtain e where e: "r = Inr (Some e)"
    and io: "(\<forall>n. WriteHeader_err env (output_path ident) n = None \<and>
                  Write_err env (output_path ident) n = None) \<longrightarrow>
             \<not> f \<and> e = errors_New ''failed to decompress''"
    by (cases r) auto
  have "convertLevelData env ident data w =
          (put_file w (output_path ident) (deferred_Close env (output_path ident) f tw), Inr (Some e))"
    using assms(1-6) we e by (simp add: convertLevelData_def Let_def length_fileNames)
  then show ?thesis using l io by blast
qed

text \<open>The amended C7 on a payload whose third segment is the marker alone.\<close>

theorem C7_decode_failure_witness:
  "Decompress sample_env ([''ASH0a'', ''ASH0b'', ''ASH0'', ''ASH0d''] ! 2) = None \<and>
   (\<exists>tw. convertLevelData sample_env ''lvl'' (ok_status @ ''ASH0aASH0bASH0ASH0d'') sample_world =
            (put_file sample_world (output_path ''lvl'') (Archive tw),
             Inr (Some (errors_New ''failed to decompress''))) \<and>
          length tw \<le> 2)"
proof -
  note io = sample_io[of "output_path ''lvl''"]
  have n: "length [''ASH0a'', ''ASH0b'', ''ASH0'', ''ASH0d''] = 4" "(2::nat) < 4" by simp_all
  have d: "Decompress sample_env ([''ASH0a'', ''ASH0b'', ''ASH0'', ''ASH0d''] ! 2) = None"
    by (simp add: sample_env_def)
  from C7_decode_failure[OF bare_status status_200 io bare_split n d, of sample_world]
  obtain tw f e where
    c: "convertLevelData sample_env ''lvl'' (ok_status @ ''ASH0aASH0bASH0ASH0d'') sample_world =
          (put_file sample_world (output_path ''lvl'')
             (deferred_Close sample_env (output_path ''lvl'') f tw), Inr (Some e))"
    and l: "length tw \<le> 2"
    and io: "(\<forall>n. WriteHeader_err sample_env (output_path ''lvl'') n = None \<and>
                  Write_err sample_env (output_path ''lvl'') n = None) \<longrightarrow>
             \<not> f \<and> e = errors_New ''failed to decompress''"
    by blast
  have "\<not> f \<and> e = errors_New ''failed to decompress''"
    using io by (simp add: sample_env_def)
  then show ?thesis using c l d by (auto simp: sample_close)
qed

subsection \<open>C8: records that are not responses\<close>

text \<open>
  Claim C8. A record whose type is not \<^verbatim>\<open>response\<close> is skipped: the run over it and
  the records after it is the run over the records after it, from the same world, and
  the run over it alone leaves the world as it is and ends without error.
\<close>

theorem C8_skip_non_response:
  assumes "Header_Get r ''WARC-Type'' \<noteq> ''response''"
  shows "extract_file env (r # rs) w = extract_file env rs w \<and>
         extract_file env [r] w = (w, Inr ())"
  using assms by simp

text \<open>C8 on a record of type request.\<close>

theorem C8_skip_non_response_witness:
  "extract_file sample_env
     [request_record ''/c/one'' (ok_status @ ''ASH0aASH0bASH0cASH0d'')] sample_world =
     (sample_world, Inr ())"
proof -
  have h: "Header_Get (request_record ''/c/one'' (ok_status @ ''ASH0aASH0bASH0cASH0d'')) ''WARC-Type''
             \<noteq> ''response''"
    by (simp add: request_record_def Header_Get_def)
  from C8_skip_non_response[OF h] show ?thesis by blast
qed

subsection \<open>C9: payloads whose status line is not 200\<close>

text \<open>
  Claim C9 as stated fails on the empty payload: its first line does not contain 200,
  and \<^verbatim>\<open>ReadLine\<close> fails, so that \<^verbatim>\<open>convertLevelData\<close> returns \<^verbatim>\<open>io.EOF\<close> instead of
  \<^verbatim>\<open>nil\<close>.
\<close>

theorem C9_counterexample:
  "\<not> strings_Contains (first_line []) ''200'' \<and>
   convertLevelData sample_env ''lvl'' [] sample_world = (sample_world, Inr (Some io_EOF))"
  by (simp add: first_line_def convertLevelData_def ReadLine_def)

text \<open>
  Claim C9, amended. For a payload whose first line does not contain 200,
  \<^verbatim>\<open>convertLevelData\<close> leaves the world as it is, whatever the decoder and the markers
  of the payload, and returns \<^verbatim>\<open>nil\<close> when the payload is not empty and \<^verbatim>\<open>io.EOF\<close> when
  it is empty; the status check of the source is not passed, so only payloads whose
  first line contains 200 reach the splitter.
\<close>

theorem C9_status_not_200:
  assumes "\<not> strings_Contains (first_line data) ''200''"
  shows "convertLevelData env ident data w = (w, Inr (if data = [] then Some io_EOF else None)) \<and>
         \<not> (\<exists>status. ReadLine data = Inr status \<and> strings_Contains status ''200'')"
  using assms convert_skipped ReadLine_prefix strings_Contains_prefix by blast

text \<open>The amended C9 on a payload with status 404.\<close>

theorem C9_status_not_200_witness:
  "\<not> strings_Contains (first_line (''HTTP/1.1 404 Not Found'' @ [CHR 0x0D, CHR 0x0A] @ ''ASH0a'')) ''200'' \<and>
   convertLevelData sample_env ''lvl'' (''HTTP/1.1 404 Not Found'' @ [CHR 0x0D, CHR 0x0A] @ ''ASH0a'')
     sample_world = (sample_world, Inr None)"
proof -
  have h: "\<not> strings_Contains (first_line (''HTTP/1.1 404 Not Found'' @ [CHR 0x0D, CHR 0x0A] @ ''ASH0a'')) ''200''"
    by code_simp
  show ?thesis using C9_status_not_200[OF h, of sample_env "''lvl''" sample_world] h by simp
qed

subsection \<open>C10: the segments cover the buffer from the first marker on\<close>

text \<open>
  Claim C10 as stated fails: a buffer that holds a marker and ends inside another one
  makes the scan panic, so that no segments are returned for it.
\<close>

theorem C10_counterexample:
  "has_marker ''ASH0xA'' \<and> splitAsh0Bundle ''ASH0xA'' = Inl IndexOutOfRange \<and>
   \<not> (\<exists>segs. splitAsh0Bundle ''ASH0xA'' = Inr segs)"
proof -
  have "has_marker ''ASH0xA''" "splitAsh0Bundle ''ASH0xA'' = Inl IndexOutOfRange"
    by code_simp+
  then show ?thesis by simp
qed

text \<open>
  Claim C10, amended. On a buffer that holds a marker and does not end inside a marker,
  the splitter returns segments, the same in both versions; every segment begins with
  the marker, and the segments in order make up the buffer from the first occurrence of
  the marker to its end.
\<close>

theorem C10_segments:
  assumes "has_marker data" "\<not> dangling data"
  shows "\<exists>segs p. splitAsh0Bundle data = Inr segs \<and> splitAsh0Bundle_part000 data = Inr segs \<and>
           (\<forall>s\<in>set segs. take 4 s = marker) \<and>
           find_marker data = Some p \<and> concat segs = drop p data"
proof -
  obtain p where p: "find_marker data = Some p"
    using assms(1) find_marker_None[of data] by (cases "find_marker data") auto
  have "splitAsh0Bundle data = Inr (snd (pieces data))"
    using assms by (simp add: splitAsh0Bundle_pieces pieces_none)
  moreover have "splitAsh0Bundle_part000 data = Inr (snd (pieces data))"
    using assms by (simp add: splitAsh0Bundle_part000_pieces pieces_none)
  ultimately show ?thesis
    using pieces_starts[of data] pieces_drop[OF p] p by blast
qed

text \<open>The amended C10 on a buffer with two bytes before its first marker.\<close>

theorem C10_segments_witness:
  "splitAsh0Bundle ''..ASH0abASH0c'' = Inr [''ASH0ab'', ''ASH0c''] \<and>
   splitAsh0Bundle_part000 ''..ASH0abASH0c'' = Inr [''ASH0ab'', ''ASH0c''] \<and>
   find_marker ''..ASH0abASH0c'' = Some 2 \<and>
   concat [''ASH0ab'', ''ASH0c''] = drop 2 ''..ASH0abASH0c''"
proof -
  have h: "has_marker ''..ASH0abASH0c''" by code_simp
  have d: "\<not> dangling ''..ASH0abASH0c''" by code_simp
  have e: "splitAsh0Bundle ''..ASH0abASH0c'' = Inr [''ASH0ab'', ''ASH0c'']" by code_simp
  have f: "find_marker ''..ASH0abASH0c'' = Some 2" by code_simp
  from C10_segments[OF h d] obtain segs p where
    "splitAsh0Bundle ''..ASH0abASH0c'' = Inr segs"
    "splitAsh0Bundle_part000 ''..ASH0abASH0c'' = Inr segs"
    "find_marker ''..ASH0abASH0c'' = Some p" "concat segs = drop p ''..ASH0abASH0c''"
    by blast
  then show ?thesis using e f by simp
qed

end
